theory Spec2Isabelle
  imports Complex_Main "HOL-Library.AList"
begin

section \<open>Forward-scattering Hamiltonian construction (scripts/QCD-RE.py)\<close>

text \<open>
  The embedding follows \<^verbatim>\<open>src/scripts/QCD-RE.py\<close>. Python floats are modelled as
  \<^typ>\<open>real\<close> (exact arithmetic): rounding is outside the model. Where the program
  divides by a zero norm it produces a non-finite float and does not raise; HOL's
  \<open>1 / 0 = 0\<close> is not that value, so the model says nothing about the momentum
  of a draw of zero norm, and the statement about the norm of a sampled momentum assumes
  that the norm of the draw is not zero. Node identifiers are the natural numbers the
  builder counts from 0.
\<close>

subsection \<open>Momenta and couplings\<close>

type_synonym momentum = "real \<times> real \<times> real"

datatype error = KeyError

text \<open>
  \<^verbatim>\<open>generate_spherical_momentum\<close> draws three standard-normal values from a fresh
  generator. The draw is the function's only input here: the model takes the three values
  \<open>(x, y, z)\<close> the generator returned.
\<close>

fun generate_spherical_momentum :: "real \<times> real \<times> real \<Rightarrow> momentum" where
  "generate_spherical_momentum (x, y, z) =
     (let constant = 1 / sqrt (x\<^sup>2 + y\<^sup>2 + z\<^sup>2)
      in (constant * x, constant * y, constant * z))"

text \<open>\<^verbatim>\<open>np.inner\<close> on two 3-element lists.\<close>

fun np_inner :: "momentum \<Rightarrow> momentum \<Rightarrow> real" where
  "np_inner (a0, a1, a2) (b0, b1, b2) = a0 * b0 + a1 * b1 + a2 * b2"

fun norm3 :: "momentum \<Rightarrow> real" where
  "norm3 (x, y, z) = sqrt (x\<^sup>2 + y\<^sup>2 + z\<^sup>2)"

definition define_forward_scattering_term :: "int \<Rightarrow> momentum \<Rightarrow> momentum \<Rightarrow> real" where
  "define_forward_scattering_term n_neutrinos curr_momentum neighbor_momentum =
     (let normalization_factor = 1 / (sqrt 2 * real_of_int n_neutrinos);
          couplings = 1 - np_inner curr_momentum neighbor_momentum;
          normalized_couplings = normalization_factor * couplings
      in normalized_couplings)"

text \<open>The two dictionary reads of \<^verbatim>\<open>gen_couplings\<close> raise \<open>KeyError\<close> on a missing id.\<close>

definition gen_couplings :: "int \<Rightarrow> nat \<Rightarrow> nat \<Rightarrow> (nat \<rightharpoonup> momentum) \<Rightarrow> error + real" where
  "gen_couplings n_neutrinos curr_id neighbor_id momentum =
     (case momentum curr_id of
        None \<Rightarrow> Inl KeyError
      | Some curr_momentum \<Rightarrow>
          (case momentum neighbor_id of
             None \<Rightarrow> Inl KeyError
           | Some neighbor_momentum \<Rightarrow>
               Inr (define_forward_scattering_term n_neutrinos curr_momentum neighbor_momentum)))"

subsection \<open>The networkx graph\<close>

text \<open>
  An undirected \<^verbatim>\<open>nx.Graph\<close> is two insertion-ordered dictionaries: \<open>node\<close> maps a
  node to its attributes and \<open>adj\<close> maps a node to the dictionary of its neighbours,
  each with the attributes of the edge. The only attribute this program reads or writes
  is \<^verbatim>\<open>'weight'\<close>: an attribute dictionary is the value stored under that key,
  \<open>None\<close> when the key is absent. Dictionaries are association lists in insertion
  order; \<open>AList.update\<close> overwrites in place or appends, as a Python dict does.
\<close>

type_synonym attrs = "real option"

record graph =
  node :: "(nat \<times> attrs) list"
  adj :: "(nat \<times> (nat \<times> attrs) list) list"

definition empty_graph :: graph where
  "empty_graph = \<lparr>node = [], adj = []\<rparr>"

definition nodes :: "graph \<Rightarrow> nat list" where
  "nodes g = map fst (node g)"

definition number_of_nodes :: "graph \<Rightarrow> nat" where
  "number_of_nodes g = length (node g)"

definition nbrs :: "graph \<Rightarrow> nat \<Rightarrow> (nat \<times> attrs) list" where
  "nbrs g u = (case map_of (adj g) u of None \<Rightarrow> [] | Some d \<Rightarrow> d)"

text \<open>\<^verbatim>\<open>graph.add_node(n, weight=w)\<close>\<close>

definition add_node :: "graph \<Rightarrow> nat \<Rightarrow> real \<Rightarrow> graph" where
  "add_node g n w =
     (if map_of (node g) n = None
      then g\<lparr>adj := AList.update n [] (adj g), node := AList.update n (Some w) (node g)\<rparr>
      else g\<lparr>node := AList.update n (Some w) (node g)\<rparr>)"

text \<open>An endpoint that \<^verbatim>\<open>add_edge\<close> does not find is added with no attributes.\<close>

definition ensure_node :: "graph \<Rightarrow> nat \<Rightarrow> graph" where
  "ensure_node g u =
     (if map_of (node g) u = None
      then g\<lparr>adj := AList.update u [] (adj g), node := AList.update u None (node g)\<rparr>
      else g)"

text \<open>
  \<^verbatim>\<open>graph.add_edge(u, v, weight=w)\<close>: the attributes already on the edge, if any,
  are updated with the weight, and the result is stored at both ends. networkx keeps the
  keys of \<open>node\<close> and \<open>adj\<close> equal, so \<open>nbrs\<close> finds the row of every node.
\<close>

definition add_edge :: "graph \<Rightarrow> nat \<Rightarrow> nat \<Rightarrow> real \<Rightarrow> graph" where
  "add_edge g u v w =
     (let g1 = ensure_node g u;
          g2 = ensure_node g1 v;
          datadict = Some w;
          g3 = g2\<lparr>adj := AList.update u (AList.update v datadict (nbrs g2 u)) (adj g2)\<rparr>;
          g4 = g3\<lparr>adj := AList.update v (AList.update u datadict (nbrs g3 v)) (adj g3)\<rparr>
      in g4)"

text \<open>
  \<^verbatim>\<open>g.edges(data=True)\<close>: every node in order, every neighbour of it in order, an
  edge reported unless its other end is a node already passed.
\<close>

fun edges_from :: "nat list \<Rightarrow> (nat \<times> (nat \<times> attrs) list) list \<Rightarrow> (nat \<times> nat \<times> attrs) list" where
  "edges_from seen [] = []"
| "edges_from seen ((n, ns) # rest) =
     map (\<lambda>(nbr, dd). (n, nbr, dd)) (filter (\<lambda>(nbr, dd). nbr \<notin> set seen) ns)
       @ edges_from (n # seen) rest"

definition edges_data :: "graph \<Rightarrow> (nat \<times> nat \<times> attrs) list" where
  "edges_data g = edges_from [] (adj g)"

text \<open>\<^verbatim>\<open>g[u][v]['weight']\<close>, \<open>None\<close> when the edge or the attribute is absent.\<close>

definition edge_weight :: "graph \<Rightarrow> nat \<Rightarrow> nat \<Rightarrow> real option" where
  "edge_weight g u v = (case map_of (nbrs g u) v of None \<Rightarrow> None | Some dd \<Rightarrow> dd)"

subsection \<open>Loops that may raise\<close>

fun fold_err :: "('a \<Rightarrow> 's \<Rightarrow> error + 's) \<Rightarrow> 'a list \<Rightarrow> 's \<Rightarrow> error + 's" where
  "fold_err f [] s = Inr s"
| "fold_err f (x # xs) s = (case f x s of Inl e \<Rightarrow> Inl e | Inr s' \<Rightarrow> fold_err f xs s')"

subsection \<open>Term expansion\<close>

type_synonym pauli_term = "string \<times> real"

text \<open>The body of the innermost loop: the buffer and the output list are the state.\<close>

definition site_step :: "string \<Rightarrow> nat \<Rightarrow> nat \<Rightarrow> real \<Rightarrow> nat
    \<Rightarrow> string \<times> pauli_term list \<Rightarrow> string \<times> pauli_term list" where
  "site_step pauli n1 n2 weight i st =
     (case st of (pauli_string, hamiltonian) \<Rightarrow>
        (let pauli_string' =
               (if i = n1 \<or> i = n2
                then take i pauli_string @ pauli @ drop (i + 1) pauli_string
                else pauli_string)
         in (pauli_string', hamiltonian @ [(pauli_string', weight)])))"

definition axis_step :: "graph \<Rightarrow> nat \<Rightarrow> nat \<Rightarrow> real \<Rightarrow> string
    \<Rightarrow> string \<times> pauli_term list \<Rightarrow> string \<times> pauli_term list" where
  "axis_step g n1 n2 weight pauli st =
     fold (site_step pauli n1 n2 weight) [0..<number_of_nodes g] st"

definition edge_step :: "graph \<Rightarrow> nat \<Rightarrow> nat \<times> nat \<times> attrs
    \<Rightarrow> pauli_term list \<Rightarrow> error + pauli_term list" where
  "edge_step g n e hamiltonian =
     (case e of (n1, n2, d) \<Rightarrow>
        (case d of
           None \<Rightarrow> Inl KeyError
         | Some weight \<Rightarrow>
             (let pauli_string = replicate n CHR ''I''
              in Inr (snd (fold (axis_step g n1 n2 weight) [''X'', ''Y'', ''Z'']
                             (pauli_string, hamiltonian))))))"

definition nx_heisenberg_terms :: "graph \<Rightarrow> error + pauli_term list" where
  "nx_heisenberg_terms g =
     (let hamiltonian = [];
          n = length (nodes g)
      in fold_err (edge_step g n) (edges_data g) hamiltonian)"

subsection \<open>Graph construction\<close>

text \<open>
  Every call of the sampler uses a fresh generator; \<open>draws k\<close> is what the generator
  of the \<open>k\<close>-th call returned. The first loop runs \<^verbatim>\<open>range(n_neutrinos)\<close>, which is
  empty for a non-positive count. The second loop enumerates the nodes as they are when
  it starts, and its inner loop slices the node list of the graph as it is then; the
  calls of \<open>add_edge\<close> in between name nodes of the graph, so they add none.
\<close>

definition node_step :: "real \<Rightarrow> (nat \<Rightarrow> real \<times> real \<times> real) \<Rightarrow> nat
    \<Rightarrow> graph \<times> (nat \<rightharpoonup> momentum) \<times> nat \<Rightarrow> graph \<times> (nat \<rightharpoonup> momentum) \<times> nat" where
  "node_step site_interaction draws k st =
     (case st of (graph, momentum, node_id) \<Rightarrow>
        (add_node graph node_id site_interaction,
         momentum(node_id \<mapsto> generate_spherical_momentum (draws k)),
         node_id + 1))"

definition neighbor_step :: "int \<Rightarrow> (nat \<rightharpoonup> momentum) \<Rightarrow> nat \<Rightarrow> nat \<Rightarrow> graph \<Rightarrow> error + graph" where
  "neighbor_step n_neutrinos momentum curr_id neighbor graph =
     (case gen_couplings n_neutrinos curr_id neighbor momentum of
        Inl e \<Rightarrow> Inl e
      | Inr coupling_terms \<Rightarrow> Inr (add_edge graph curr_id neighbor coupling_terms))"

definition curr_step :: "int \<Rightarrow> (nat \<rightharpoonup> momentum) \<Rightarrow> nat \<times> nat \<Rightarrow> graph \<Rightarrow> error + graph" where
  "curr_step n_neutrinos momentum p graph =
     (case p of (idx, curr_id) \<Rightarrow>
        fold_err (neighbor_step n_neutrinos momentum curr_id) (drop (idx + 1) (nodes graph)) graph)"

definition generate_heisenberg_graph :: "int \<Rightarrow> real \<Rightarrow> (nat \<Rightarrow> real \<times> real \<times> real) \<Rightarrow> error + graph" where
  "generate_heisenberg_graph n_neutrinos site_interaction draws =
     (case fold (node_step site_interaction draws) [0..<nat n_neutrinos] (empty_graph, Map.empty, 0) of
        (graph, momentum, node_id) \<Rightarrow>
          fold_err (curr_step n_neutrinos momentum) (enumerate 0 (nodes graph)) graph)"

subsection \<open>Relabelling\<close>

fun index_of :: "nat list \<Rightarrow> nat \<Rightarrow> nat" where
  "index_of [] k = 0"
| "index_of (x # xs) k = (if x = k then 0 else Suc (index_of xs k))"

text \<open>
  Modelled from the spec: \<^verbatim>\<open>flatten_nx_graph\<close> (qca.utils.hamiltonian_utils) is not
  among the sources. The spec describes it as the relabelling collaborator that
  guarantees node identifiers are a contiguous \<open>0..N-1\<close> integer range: each node is
  renamed to its position in the node order, in the node dictionary and in every
  adjacency dictionary, and nothing else changes.
\<close>

definition flatten_nx_graph :: "graph \<Rightarrow> graph" where
  "flatten_nx_graph g =
     (let new_id = index_of (nodes g)
      in \<lparr>node = map (\<lambda>(k, a). (new_id k, a)) (node g),
          adj = map (\<lambda>(k, ns). (new_id k, map (\<lambda>(j, d). (new_id j, d)) ns)) (adj g)\<rparr>)"

subsection \<open>Pipeline entry point\<close>

definition generate_forward_scattering :: "int \<Rightarrow> real \<Rightarrow> (nat \<Rightarrow> real \<times> real \<times> real)
    \<Rightarrow> error + pauli_term list" where
  "generate_forward_scattering n_neutrinos site_interactions draws =
     (case generate_heisenberg_graph n_neutrinos site_interactions draws of
        Inl e \<Rightarrow> Inl e
      | Inr graph \<Rightarrow>
          (let flat_graph = flatten_nx_graph graph;
               scattering_hamiltonian = nx_heisenberg_terms flat_graph
           in scattering_hamiltonian))"

section \<open>Notions used in the statements and proofs\<close>

text \<open>
  A string is all-Identity when each of its symbols is \<open>I\<close>; a graph is weighted when
  every edge that \<open>edges_data\<close> reports carries the \<^verbatim>\<open>'weight'\<close> attribute.
  \<open>edge_terms\<close> is what the two inner loops of \<^verbatim>\<open>nx_heisenberg_terms\<close> emit for
  one edge, started on an empty output list; \<open>ends\<close> forgets the attribute of an edge.
\<close>

definition all_identity :: "string \<Rightarrow> bool" where
  "all_identity s = list_all (\<lambda>c. c = CHR ''I'') s"

definition weighted :: "graph \<Rightarrow> bool" where
  "weighted g = list_all (\<lambda>(n1, n2, d). d \<noteq> None) (edges_data g)"

definition edge_terms :: "graph \<Rightarrow> nat \<Rightarrow> nat \<Rightarrow> nat \<Rightarrow> real \<Rightarrow> pauli_term list" where
  "edge_terms g n n1 n2 w =
     snd (fold (axis_step g n1 n2 w) [''X'', ''Y'', ''Z''] (replicate n CHR ''I'', []))"

definition ends :: "nat \<times> nat \<times> 'a \<Rightarrow> nat \<times> nat" where
  "ends e = (case e of (a, b, d) \<Rightarrow> (a, b))"

text \<open>
  The graph reached after a sequence of \<open>add_edge\<close> calls on \<open>N\<close> nodes: the
  adjacency row of a node lists, in call order, the other end of every edge at it.
  \<open>below N k j es\<close> says that \<open>es\<close> holds only pairs \<open>u < v < N\<close> that the nested
  loops of \<^verbatim>\<open>generate_heisenberg_graph\<close> visit before the pair \<open>(k, j)\<close>.
\<close>

fun ends_at :: "nat \<Rightarrow> nat \<times> nat \<times> real \<Rightarrow> (nat \<times> attrs) list" where
  "ends_at i (u, v, w) = (if u = i then [(v, Some w)] else if v = i then [(u, Some w)] else [])"

definition row :: "(nat \<times> nat \<times> real) list \<Rightarrow> nat \<Rightarrow> (nat \<times> attrs) list" where
  "row es i = concat (map (ends_at i) es)"

definition with_edges :: "nat \<Rightarrow> real \<Rightarrow> (nat \<times> nat \<times> real) list \<Rightarrow> graph" where
  "with_edges N site es =
     \<lparr>node = map (\<lambda>i. (i, Some site)) [0..<N], adj = map (\<lambda>i. (i, row es i)) [0..<N]\<rparr>"

definition below :: "nat \<Rightarrow> nat \<Rightarrow> nat \<Rightarrow> (nat \<times> nat \<times> real) list \<Rightarrow> bool" where
  "below N k j es = (\<forall>(u, v, w)\<in>set es. u < v \<and> v < N \<and> (u < k \<or> (u = k \<and> v < j)))"

text \<open>
  The edges the nested loops add for the current node \<open>i\<close>, the adjacency row of node
  \<open>i\<close> once every pair was added, the sampled momentum of particle \<open>i\<close>, the coupling
  of the pair \<open>(i, j)\<close>, and the whole edge sequence in the order of the calls.
\<close>

definition pair_edges :: "nat \<Rightarrow> (nat \<Rightarrow> nat \<Rightarrow> real) \<Rightarrow> nat \<Rightarrow> (nat \<times> nat \<times> real) list" where
  "pair_edges N W i = map (\<lambda>j. (i, j, W i j)) [Suc i..<N]"

definition full_row :: "nat \<Rightarrow> (nat \<Rightarrow> nat \<Rightarrow> real) \<Rightarrow> nat \<Rightarrow> (nat \<times> attrs) list" where
  "full_row N W i =
     map (\<lambda>u. (u, Some (W u i))) [0..<i] @ map (\<lambda>j. (j, Some (W i j))) [Suc i..<N]"

definition sampled :: "(nat \<Rightarrow> real \<times> real \<times> real) \<Rightarrow> nat \<Rightarrow> momentum" where
  "sampled draws i = generate_spherical_momentum (draws i)"

definition coupling :: "int \<Rightarrow> (nat \<Rightarrow> real \<times> real \<times> real) \<Rightarrow> nat \<Rightarrow> nat \<Rightarrow> real" where
  "coupling n draws i j = define_forward_scattering_term n (sampled draws i) (sampled draws j)"

definition all_edges :: "int \<Rightarrow> (nat \<Rightarrow> real \<times> real \<times> real) \<Rightarrow> (nat \<times> nat \<times> real) list" where
  "all_edges n draws = concat (map (pair_edges (nat n) (coupling n draws)) [0..<nat n])"

section \<open>Arithmetic of the coupling\<close>

lemma np_inner_commute: "np_inner p q = np_inner q p"
  by (cases p; cases q) (simp add: mult.commute)

text \<open>
  C5. The coupling weight computed for the momenta in the order (a, b) equals the weight
  computed for (b, a), both in the function of the two momenta and in the function that
  reads them from the momentum dictionary.
\<close>

theorem coupling_symmetric:
  "define_forward_scattering_term n p q = define_forward_scattering_term n q p
   \<and> gen_couplings n a b momentum = gen_couplings n b a momentum"
  by (simp add: define_forward_scattering_term_def gen_couplings_def np_inner_commute
      split: option.splits)

lemma norm3_sq: "(norm3 p)\<^sup>2 = np_inner p p"
  by (cases p) (simp add: power2_eq_square add_nonneg_nonneg)

lemma unit_inner_le: "norm3 p = 1 \<Longrightarrow> norm3 q = 1 \<Longrightarrow> np_inner p q \<le> 1"
proof -
  assume p: "norm3 p = 1" and q: "norm3 q = 1"
  obtain a0 a1 a2 where P: "p = (a0, a1, a2)" by (cases p)
  obtain b0 b1 b2 where Q: "q = (b0, b1, b2)" by (cases q)
  have pp: "np_inner p p = 1" using norm3_sq [of p] p by simp
  have qq: "np_inner q q = 1" using norm3_sq [of q] q by simp
  have "0 \<le> (a0 - b0)\<^sup>2 + (a1 - b1)\<^sup>2 + (a2 - b2)\<^sup>2" by simp
  also have "\<dots> = np_inner p p + np_inner q q - 2 * np_inner p q"
    by (simp add: P Q power2_eq_square algebra_simps)
  finally show ?thesis using pp qq by simp
qed

lemma unit_inner_ge: "norm3 p = 1 \<Longrightarrow> norm3 q = 1 \<Longrightarrow> - 1 \<le> np_inner p q"
proof -
  assume p: "norm3 p = 1" and q: "norm3 q = 1"
  obtain a0 a1 a2 where P: "p = (a0, a1, a2)" by (cases p)
  obtain b0 b1 b2 where Q: "q = (b0, b1, b2)" by (cases q)
  have pp: "np_inner p p = 1" using norm3_sq [of p] p by simp
  have qq: "np_inner q q = 1" using norm3_sq [of q] q by simp
  have "0 \<le> (a0 + b0)\<^sup>2 + (a1 + b1)\<^sup>2 + (a2 + b2)\<^sup>2" by simp
  also have "\<dots> = np_inner p p + np_inner q q + 2 * np_inner p q"
    by (simp add: P Q power2_eq_square algebra_simps)
  finally show ?thesis using pp qq by simp
qed

lemma unit_norm_sample:
  assumes "norm3 d \<noteq> 0"
  shows "norm3 (generate_spherical_momentum d) = 1"
proof -
  obtain x y z where d: "d = (x, y, z)" by (cases d)
  define s where "s = x\<^sup>2 + y\<^sup>2 + z\<^sup>2"
  have s0: "0 \<le> s" by (simp add: s_def)
  have sn: "s \<noteq> 0" using assms by (simp add: s_def d)
  have e: "(c * x)\<^sup>2 + (c * y)\<^sup>2 + (c * z)\<^sup>2 = c\<^sup>2 * s" for c :: real
    by (simp add: s_def power_mult_distrib distrib_left)
  have "(1 / sqrt s * x)\<^sup>2 + (1 / sqrt s * y)\<^sup>2 + (1 / sqrt s * z)\<^sup>2 = (1 / sqrt s)\<^sup>2 * s"
    by (rule e)
  also have "\<dots> = 1" using s0 sn by (simp add: power_divide)
  finally show ?thesis by (simp add: s_def Let_def d)
qed

text \<open>
  C6. For a draw whose Euclidean norm is not zero, the momentum returned by the sampler
  has Euclidean norm 1 (in real arithmetic).
\<close>

theorem spherical_momentum_unit_norm:
  assumes "norm3 (x, y, z) \<noteq> 0"
  shows "norm3 (generate_spherical_momentum (x, y, z)) = 1"
  using assms by (rule unit_norm_sample)

theorem spherical_momentum_unit_norm_witness:
  "norm3 (3, 0, 4) \<noteq> 0 \<and> norm3 (generate_spherical_momentum (3, 0, 4)) = 1"
proof -
  have h: "norm3 (3, 0, 4) \<noteq> 0" by simp
  show ?thesis using h spherical_momentum_unit_norm [OF h] by simp
qed

lemma weight_bounds:
  assumes "0 < n" and "norm3 p = 1" and "norm3 q = 1"
  shows "0 \<le> define_forward_scattering_term n p q
         \<and> define_forward_scattering_term n p q \<le> sqrt 2 / real_of_int n"
proof -
  have n: "0 < real_of_int n" using assms(1) by simp
  have f: "0 < 1 / (sqrt 2 * real_of_int n)" using n by simp
  have lo: "0 \<le> 1 - np_inner p q" using unit_inner_le [OF assms(2,3)] by simp
  have hi: "1 - np_inner p q \<le> 2" using unit_inner_ge [OF assms(2,3)] by simp
  have a: "0 \<le> 1 / (sqrt 2 * real_of_int n) * (1 - np_inner p q)"
    using f lo by (intro mult_nonneg_nonneg) simp_all
  have "1 / (sqrt 2 * real_of_int n) * (1 - np_inner p q) \<le> 1 / (sqrt 2 * real_of_int n) * 2"
    using f hi by (intro mult_left_mono) simp_all
  also have "\<dots> = sqrt 2 / real_of_int n"
  proof -
    have "sqrt 2 * sqrt 2 = (2::real)" by simp
    then show ?thesis using n by (simp add: field_simps)
  qed
  finally show ?thesis using a by (simp add: define_forward_scattering_term_def)
qed

section \<open>Term expansion\<close>

lemma update_fresh: "k \<notin> fst ` set xs \<Longrightarrow> AList.update k v xs = xs @ [(k, v)]"
  by (induction xs) auto

lemma site_step_acc:
  "site_step p n1 n2 w i (ps, h) =
     (fst (site_step p n1 n2 w i (ps, [])), h @ snd (site_step p n1 n2 w i (ps, [])))"
  by (simp add: site_step_def Let_def)

lemma fold_site_step_acc:
  "fold (site_step p n1 n2 w) is (ps, h) =
     (fst (fold (site_step p n1 n2 w) is (ps, [])),
      h @ snd (fold (site_step p n1 n2 w) is (ps, [])))"
proof (induction "is" arbitrary: ps h)
  case Nil
  show ?case by simp
next
  case (Cons i "is")
  obtain ps' where s: "site_step p n1 n2 w i (ps, []) = (ps', [(ps', w)])"
    by (simp add: site_step_def Let_def)
  have s': "site_step p n1 n2 w i (ps, h) = (ps', h @ [(ps', w)])"
    using s by (simp add: site_step_def Let_def)
  show ?case
    using Cons.IH [of ps' "h @ [(ps', w)]"] Cons.IH [of ps' "[(ps', w)]"]
    by (simp add: s s')
qed

lemma fold_site_step_length:
  "length (snd (fold (site_step p n1 n2 w) is (ps, h))) = length h + length is"
proof (induction "is" arbitrary: ps h)
  case Nil
  show ?case by simp
next
  case (Cons i "is")
  obtain ps' where s': "site_step p n1 n2 w i (ps, h) = (ps', h @ [(ps', w)])"
    by (simp add: site_step_def Let_def)
  show ?case using Cons.IH [of ps' "h @ [(ps', w)]"] by (simp add: s')
qed

lemma axis_step_length:
  "length (snd (axis_step g n1 n2 w p st)) = length (snd st) + number_of_nodes g"
  by (cases st) (simp add: axis_step_def fold_site_step_length)

lemma axis_step_acc:
  "axis_step g n1 n2 w p (ps, h) =
     (fst (axis_step g n1 n2 w p (ps, [])), h @ snd (axis_step g n1 n2 w p (ps, [])))"
  unfolding axis_step_def by (rule fold_site_step_acc)

lemma edge_step_terms: "edge_step g n (n1, n2, Some w) h = Inr (h @ edge_terms g n n1 n2 w)"
proof -
  let ?I = "replicate n CHR ''I''"
  obtain p1 t1 where a1: "axis_step g n1 n2 w ''X'' (?I, []) = (p1, t1)" by force
  obtain p2 t2 where a2: "axis_step g n1 n2 w ''Y'' (p1, []) = (p2, t2)" by force
  obtain p3 t3 where a3: "axis_step g n1 n2 w ''Z'' (p2, []) = (p3, t3)" by force
  have b1: "axis_step g n1 n2 w ''X'' (?I, h) = (p1, h @ t1)"
    using axis_step_acc [of g n1 n2 w "''X''" ?I h] by (simp add: a1)
  have b2: "axis_step g n1 n2 w ''Y'' (p1, k) = (p2, k @ t2)" for k
    using axis_step_acc [of g n1 n2 w "''Y''" p1 k] by (simp add: a2)
  have b3: "axis_step g n1 n2 w ''Z'' (p2, k) = (p3, k @ t3)" for k
    using axis_step_acc [of g n1 n2 w "''Z''" p2 k] by (simp add: a3)
  have l: "edge_step g n (n1, n2, Some w) h = Inr (h @ t1 @ t2 @ t3)"
    by (simp add: edge_step_def b1 b2 b3)
  have r: "edge_terms g n n1 n2 w = t1 @ t2 @ t3"
    using b2 [of t1] b3 [of "t1 @ t2"] by (simp add: edge_terms_def a1)
  show ?thesis by (simp add: l r)
qed

lemma edge_terms_length: "length (edge_terms g n n1 n2 w) = 3 * number_of_nodes g"
  by (simp add: edge_terms_def axis_step_length)

lemma fold_err_append:
  assumes "\<And>e h. e \<in> set es \<Longrightarrow> f e h = Inr (h @ t e)"
  shows "fold_err f es h = Inr (h @ concat (map t es))"
  using assms by (induction es arbitrary: h) simp_all

lemma nx_heisenberg_terms_concat:
  assumes "weighted g"
  shows "nx_heisenberg_terms g =
     Inr (concat (map (\<lambda>(n1, n2, d). edge_terms g (length (nodes g)) n1 n2 (the d)) (edges_data g)))"
proof -
  have "edge_step g (length (nodes g)) e h =
          Inr (h @ (\<lambda>(n1, n2, d). edge_terms g (length (nodes g)) n1 n2 (the d)) e)"
    if "e \<in> set (edges_data g)" for e h
  proof -
    obtain n1 n2 d where e: "e = (n1, n2, d)" by (cases e)
    from that assms obtain w where "d = Some w"
      by (auto simp: weighted_def list_all_iff e)
    then show ?thesis by (simp add: e edge_step_terms)
  qed
  then show ?thesis
    using fold_err_append [of "edges_data g" "edge_step g (length (nodes g))" _ "[]"]
    by (simp add: nx_heisenberg_terms_def)
qed

lemma length_concat_const:
  "(\<And>x. x \<in> set xs \<Longrightarrow> length (f x) = c) \<Longrightarrow> length (concat (map f xs)) = c * length xs"
  by (induction xs) simp_all

lemma fold_site_step_miss:
  "\<forall>i\<in>set is. i \<noteq> n1 \<and> i \<noteq> n2 \<Longrightarrow>
     fold (site_step p n1 n2 w) is (ps, h) = (ps, h @ replicate (length is) (ps, w))"
proof (induction "is" arbitrary: h)
  case Nil
  show ?case by simp
next
  case (Cons i "is")
  have s: "site_step p n1 n2 w i (ps, h) = (ps, h @ [(ps, w)])"
    using Cons.prems by (simp add: site_step_def)
  show ?case using Cons by (simp add: s replicate_app_Cons_same)
qed

lemma site_step_keeps:
  assumes "c \<noteq> CHR ''I''" and "i < length ps" and "\<not> all_identity ps \<or> i = n1 \<or> i = n2"
  shows "\<exists>ps'. site_step [c] n1 n2 w i (ps, h) = (ps', h @ [(ps', w)])
               \<and> length ps' = length ps \<and> \<not> all_identity ps'"
  using assms by (auto simp: site_step_def all_identity_def Let_def)

lemma fold_site_step_keeps:
  assumes "c \<noteq> CHR ''I''" and "\<forall>i\<in>set is. i < length ps" and "\<not> all_identity ps"
  shows "\<exists>ps' ts. fold (site_step [c] n1 n2 w) is (ps, h) = (ps', h @ ts)
               \<and> length ps' = length ps \<and> \<not> all_identity ps'
               \<and> length ts = length is
               \<and> (\<forall>t\<in>set ts. \<not> all_identity (fst t) \<and> snd t = w)"
  using assms(2,3)
proof (induction "is" arbitrary: ps h)
  case Nil
  then show ?case by simp
next
  case (Cons i "is")
  from site_step_keeps [of c i ps n1 n2 w h] assms(1) Cons.prems
  obtain ps1 where s: "site_step [c] n1 n2 w i (ps, h) = (ps1, h @ [(ps1, w)])"
    and l: "length ps1 = length ps" and n: "\<not> all_identity ps1" by auto
  from Cons.IH [of ps1 "h @ [(ps1, w)]"] Cons.prems l n
  obtain ps' ts where f: "fold (site_step [c] n1 n2 w) is (ps1, h @ [(ps1, w)]) = (ps', (h @ [(ps1, w)]) @ ts)"
    and r: "length ps' = length ps1" "\<not> all_identity ps'" "length ts = length is"
       "\<forall>t\<in>set ts. \<not> all_identity (fst t) \<and> snd t = w" by auto
  show ?case
    by (rule exI [of _ ps'], rule exI [of _ "(ps1, w) # ts"]) (use s f r l n in simp)
qed

lemma axis_step_keeps:
  assumes "c \<noteq> CHR ''I''" and "length ps = number_of_nodes g" and "\<not> all_identity ps"
  shows "\<exists>ps' ts. axis_step g n1 n2 w [c] (ps, h) = (ps', h @ ts)
               \<and> length ps' = number_of_nodes g \<and> \<not> all_identity ps'
               \<and> length ts = number_of_nodes g
               \<and> (\<forall>t\<in>set ts. \<not> all_identity (fst t) \<and> snd t = w)"
  using fold_site_step_keeps [of c "[0..<number_of_nodes g]" ps n1 n2 w h] assms
  by (simp add: axis_step_def)

lemma axis_step_first:
  assumes "m = min n1 n2" and "m < number_of_nodes g" and "n = number_of_nodes g"
  shows "\<exists>ps' ts. axis_step g n1 n2 w ''X'' (replicate n CHR ''I'', h)
                  = (ps', h @ replicate m (replicate n CHR ''I'', w) @ ts)
               \<and> length ps' = n \<and> \<not> all_identity ps'
               \<and> length ts = n - m
               \<and> (\<forall>t\<in>set ts. \<not> all_identity (fst t) \<and> snd t = w)"
proof -
  let ?I = "replicate n CHR ''I''"
  let ?h1 = "h @ replicate m (?I, w)"
  have split: "[0..<number_of_nodes g] = [0..<m] @ m # [Suc m..<number_of_nodes g]"
    using assms(2) by (metis upt_add_eq_append upt_conv_Cons le_add_diff_inverse less_imp_le zero_le)
  have miss: "fold (site_step ''X'' n1 n2 w) [0..<m] (?I, h) = (?I, ?h1)"
    using fold_site_step_miss [of "[0..<m]" n1 n2 "''X''" w ?I h] assms(1) by auto
  from site_step_keeps [of "CHR ''X''" m ?I n1 n2 w ?h1] assms
  obtain ps1 where s: "site_step ''X'' n1 n2 w m (?I, ?h1) = (ps1, ?h1 @ [(ps1, w)])"
    and l: "length ps1 = n" and n: "\<not> all_identity ps1" by (auto simp: min_def split: if_splits)
  from fold_site_step_keeps [of "CHR ''X''" "[Suc m..<number_of_nodes g]" ps1 n1 n2 w "?h1 @ [(ps1, w)]"] l n assms(3)
  obtain ps' ts where f: "fold (site_step ''X'' n1 n2 w) [Suc m..<number_of_nodes g] (ps1, ?h1 @ [(ps1, w)])
        = (ps', (?h1 @ [(ps1, w)]) @ ts)"
    and r: "length ps' = length ps1" "\<not> all_identity ps'" "length ts = length [Suc m..<number_of_nodes g]"
       "\<forall>t\<in>set ts. \<not> all_identity (fst t) \<and> snd t = w" by auto
  show ?thesis
    by (rule exI [of _ ps'], rule exI [of _ "(ps1, w) # ts"])
       (use split miss s f r l n assms in \<open>simp add: axis_step_def\<close>)
qed

lemma edge_terms_shape:
  assumes "m = min n1 n2" and "m < number_of_nodes g" and "n = number_of_nodes g"
  shows "\<exists>ts. edge_terms g n n1 n2 w = replicate m (replicate n CHR ''I'', w) @ ts
             \<and> (\<forall>t\<in>set ts. \<not> all_identity (fst t) \<and> snd t = w)"
proof -
  let ?I = "replicate n CHR ''I''"
  from axis_step_first [OF assms, of w "[]"]
  obtain p1 t1 where a1: "axis_step g n1 n2 w ''X'' (?I, []) = (p1, replicate m (?I, w) @ t1)"
    and r1: "length p1 = n" "\<not> all_identity p1" "\<forall>t\<in>set t1. \<not> all_identity (fst t) \<and> snd t = w"
    by auto
  from axis_step_keeps [of "CHR ''Y''" p1 g n1 n2 w "replicate m (?I, w) @ t1"] r1 assms(3)
  obtain p2 t2 where a2: "axis_step g n1 n2 w ''Y'' (p1, replicate m (?I, w) @ t1)
        = (p2, (replicate m (?I, w) @ t1) @ t2)"
    and r2: "length p2 = n" "\<not> all_identity p2" "\<forall>t\<in>set t2. \<not> all_identity (fst t) \<and> snd t = w"
    by auto
  from axis_step_keeps [of "CHR ''Z''" p2 g n1 n2 w "(replicate m (?I, w) @ t1) @ t2"] r2 assms(3)
  obtain p3 t3 where a3: "axis_step g n1 n2 w ''Z'' (p2, (replicate m (?I, w) @ t1) @ t2)
        = (p3, ((replicate m (?I, w) @ t1) @ t2) @ t3)"
    and r3: "\<forall>t\<in>set t3. \<not> all_identity (fst t) \<and> snd t = w"
    by auto
  show ?thesis
    by (rule exI [of _ "t1 @ t2 @ t3"]) (use a1 a2 a3 r1 r2 r3 in \<open>auto simp: edge_terms_def\<close>)
qed

lemma fold_err_raises:
  assumes "e \<in> set es" and "\<And>h. f e h = Inl KeyError"
  shows "fold_err f es h = Inl KeyError"
  using assms(1)
proof (induction es arbitrary: h)
  case Nil
  then show ?case by simp
next
  case (Cons x xs)
  show ?case
  proof (cases "f x h")
    case (Inl err)
    then show ?thesis by (cases err) simp
  next
    case (Inr h')
    then have "x \<noteq> e" using assms(2) [of h] by auto
    then have "e \<in> set xs" using Cons.prems by simp
    then show ?thesis using Cons.IH Inr by simp
  qed
qed

lemma nx_heisenberg_terms_raises:
  assumes "\<not> weighted g"
  shows "nx_heisenberg_terms g = Inl KeyError"
proof -
  from assms obtain n1 n2 where e: "(n1, n2, None) \<in> set (edges_data g)"
    by (auto simp: weighted_def list_all_iff)
  have "edge_step g (length (nodes g)) (n1, n2, None) h = Inl KeyError" for h
    by (simp add: edge_step_def)
  then have "fold_err (edge_step g (length (nodes g))) (edges_data g) [] = Inl KeyError"
    by (rule fold_err_raises [OF e])
  then show ?thesis
    by (simp add: nx_heisenberg_terms_def)
qed

text \<open>
  C1. On a graph whose edges all carry a weight, the expander appends exactly 3 * N terms
  for each edge, whatever the output list held before, and returns a Hamiltonian of
  exactly 3 * N * edge_count terms, N being the number of nodes. A graph with an edge
  that carries no weight makes the expander raise KeyError.
\<close>

theorem expander_term_count:
  "(weighted g \<longrightarrow>
      (\<forall>e\<in>set (edges_data g). \<forall>h. \<exists>ts.
          edge_step g (length (nodes g)) e h = Inr (h @ ts) \<and> length ts = 3 * number_of_nodes g)
      \<and> (\<exists>h. nx_heisenberg_terms g = Inr h
             \<and> length h = 3 * number_of_nodes g * length (edges_data g)))
   \<and> (\<not> weighted g \<longrightarrow> nx_heisenberg_terms g = Inl KeyError)"
proof (intro conjI impI ballI allI)
  fix e h
  assume w: "weighted g" and e: "e \<in> set (edges_data g)"
  obtain n1 n2 d where ee: "e = (n1, n2, d)" by (cases e)
  from w e obtain wt where d: "d = Some wt"
    by (auto simp: weighted_def list_all_iff ee)
  show "\<exists>ts. edge_step g (length (nodes g)) e h = Inr (h @ ts) \<and> length ts = 3 * number_of_nodes g"
    by (rule exI [of _ "edge_terms g (length (nodes g)) n1 n2 wt"])
       (simp add: ee d edge_step_terms edge_terms_length)
next
  assume w: "weighted g"
  have "length (concat (map (\<lambda>(n1, n2, d). edge_terms g (length (nodes g)) n1 n2 (the d)) (edges_data g)))
          = 3 * number_of_nodes g * length (edges_data g)"
    by (rule length_concat_const) (auto simp: edge_terms_length)
  then show "\<exists>h. nx_heisenberg_terms g = Inr h
             \<and> length h = 3 * number_of_nodes g * length (edges_data g)"
    by (simp add: nx_heisenberg_terms_concat [OF w])
next
  assume "\<not> weighted g"
  then show "nx_heisenberg_terms g = Inl KeyError" by (rule nx_heisenberg_terms_raises)
qed

theorem expander_term_count_witness:
  "weighted \<lparr>node = [(0, Some 0), (1, Some 0), (2, Some 0)],
             adj = [(0, [(1, Some 5)]), (1, [(0, Some 5), (2, Some 7)]), (2, [(1, Some 7)])]\<rparr>
   \<and> (\<exists>h. nx_heisenberg_terms
              \<lparr>node = [(0, Some 0), (1, Some 0), (2, Some 0)],
               adj = [(0, [(1, Some 5)]), (1, [(0, Some 5), (2, Some 7)]), (2, [(1, Some 7)])]\<rparr> = Inr h
          \<and> length h = 18)"
proof -
  let ?g = "\<lparr>node = [(0, Some 0), (1, Some 0), (2, Some 0)],
             adj = [(0, [(1, Some 5)]), (1, [(0, Some 5), (2, Some 7)]), (2, [(1, Some 7)])]\<rparr>"
  have w: "weighted ?g" by (simp add: weighted_def edges_data_def)
  have n: "3 * number_of_nodes ?g * length (edges_data ?g) = 18"
    by (simp add: number_of_nodes_def edges_data_def)
  have "\<exists>h. nx_heisenberg_terms ?g = Inr h
          \<and> length h = 3 * number_of_nodes ?g * length (edges_data ?g)"
    by (rule expander_term_count [of ?g, THEN conjunct1, THEN mp, OF w, THEN conjunct2])
  then show ?thesis unfolding n using w by (intro conjI)
qed

section \<open>The graph that the builder returns\<close>

lemma update_app_in:
  "k \<in> fst ` set xs \<Longrightarrow> AList.update k v (xs @ ys) = AList.update k v xs @ ys"
  by (induction xs) auto

lemma update_app_out:
  "k \<notin> fst ` set xs \<Longrightarrow> AList.update k v (xs @ ys) = xs @ AList.update k v ys"
  by (induction xs) auto

lemma map_of_tab_list:
  "map_of (map (\<lambda>i. (i, f i)) xs) k = (if k \<in> set xs then Some (f k) else None)"
  by (induction xs) auto

lemma map_of_tab: "map_of (map (\<lambda>i. (i, f i)) [0..<N]) k = (if k < N then Some (f k) else None)"
  by (simp add: map_of_tab_list)

lemma keys_tab: "fst ` set (map (\<lambda>i. (i, f i)) [0..<N]) = {0..<N}"
  by (auto simp: image_iff)

lemma update_tab:
  "k < N \<Longrightarrow> AList.update k v (map (\<lambda>i. (i, f i)) [0..<N]) = map (\<lambda>i. (i, (f(k := v)) i)) [0..<N]"
proof (induction N)
  case 0
  then show ?case by simp
next
  case (Suc N)
  show ?case
  proof (cases "k = N")
    case True
    have "k \<notin> fst ` set (map (\<lambda>i. (i, f i)) [0..<N])" unfolding keys_tab using True by simp
    from update_app_out [OF this, of v "[(N, f N)]"] True show ?thesis by simp
  next
    case False
    then have k: "k < N" using Suc.prems by simp
    then have "k \<in> fst ` set (map (\<lambda>i. (i, f i)) [0..<N])" unfolding keys_tab by simp
    from update_app_in [OF this, of v "[(N, f N)]"] Suc.IH [OF k] False show ?thesis by simp
  qed
qed

lemma node_loop:
  "fold (node_step site draws) [0..<N] (empty_graph, Map.empty, 0) =
     (with_edges N site [],
      (\<lambda>i. if i < N then Some (generate_spherical_momentum (draws i)) else None),
      N)"
proof (induction N)
  case 0
  show ?case by (simp add: with_edges_def empty_graph_def)
next
  case (Suc N)
  have f: "N \<notin> fst ` set (map (\<lambda>i. (i, f i)) [0..<N])" for f :: "nat \<Rightarrow> 'b"
    unfolding keys_tab by simp
  have a: "add_node (with_edges N site []) N site = with_edges (Suc N) site []"
    by (simp add: add_node_def with_edges_def map_of_tab update_fresh [OF f] row_def)
  have "fold (node_step site draws) [0..<Suc N] (empty_graph, Map.empty, 0) =
          node_step site draws N (fold (node_step site draws) [0..<N] (empty_graph, Map.empty, 0))"
    by simp
  also have "\<dots> = (with_edges (Suc N) site [],
      (\<lambda>i. if i < Suc N then Some (generate_spherical_momentum (draws i)) else None),
      Suc N)"
    unfolding Suc by (auto simp: node_step_def a)
  finally show ?case .
qed

lemma row_append: "row (es @ fs) i = row es i @ row fs i"
  by (simp add: row_def)

lemma row_keys:
  "fst ` set (row es i) = {v. \<exists>w. (i, v, w) \<in> set es} \<union> {u. \<exists>w. (u, i, w) \<in> set es}"
proof (induction es)
  case Nil
  show ?case by (simp add: row_def)
next
  case (Cons e es)
  obtain u v w where e: "e = (u, v, w)" by (cases e)
  have "row (e # es) i = ends_at i e @ row es i" by (simp add: row_def)
  then show ?case using Cons by (auto simp: e image_Un)
qed

lemma below_fresh:
  assumes "below N k j es" and "k < j"
  shows "j \<notin> fst ` set (row es k)" and "k \<notin> fst ` set (row es j)"
  using assms unfolding row_keys below_def by fastforce+

lemma nodes_with_edges: "nodes (with_edges N site es) = [0..<N]"
  by (simp add: nodes_def with_edges_def comp_def)

lemma nbrs_with_edges: "i < N \<Longrightarrow> nbrs (with_edges N site es) i = row es i"
  by (simp add: nbrs_def with_edges_def map_of_tab)

lemma add_edge_with_edges:
  assumes "u < N" and "v < N" and "u \<noteq> v"
    and "v \<notin> fst ` set (row es u)" and "u \<notin> fst ` set (row es v)"
  shows "add_edge (with_edges N site es) u v w = with_edges N site (es @ [(u, v, w)])"
proof -
  let ?g = "with_edges N site es"
  have e1: "ensure_node ?g u = ?g"
    using assms(1) by (simp add: ensure_node_def with_edges_def map_of_tab)
  have e2: "ensure_node ?g v = ?g"
    using assms(2) by (simp add: ensure_node_def with_edges_def map_of_tab)
  let ?r1 = "(row es)(u := row es u @ [(v, Some w)])"
  let ?t1 = "map (\<lambda>i. (i, ?r1 i)) [0..<N]"
  have a3: "AList.update u (AList.update v (Some w) (nbrs ?g u)) (adj ?g) = ?t1"
    using update_tab [OF assms(1), of "row es u @ [(v, Some w)]" "row es"]
    by (simp add: nbrs_with_edges [OF assms(1)] update_fresh [OF assms(4)])
       (simp add: with_edges_def)
  have n3: "nbrs (?g\<lparr>adj := ?t1\<rparr>) v = row es v"
    using assms(2,3) by (simp add: nbrs_def map_of_tab)
  let ?r2 = "?r1(v := row es v @ [(u, Some w)])"
  have a4: "AList.update v (AList.update u (Some w) (row es v)) ?t1 = map (\<lambda>i. (i, ?r2 i)) [0..<N]"
    unfolding update_fresh [OF assms(5)] by (rule update_tab [OF assms(2)])
  have r: "?r2 i = row (es @ [(u, v, w)]) i" for i
    using assms(3) by (simp add: row_append) (simp add: row_def)
  have "add_edge ?g u v w =
      ?g\<lparr>adj := AList.update v (AList.update u (Some w) (nbrs (?g\<lparr>adj := ?t1\<rparr>) v)) ?t1\<rparr>"
    unfolding add_edge_def Let_def e1 e2 a3 by simp
  also have "\<dots> = with_edges N site (es @ [(u, v, w)])"
    unfolding n3 a4 r by (simp add: with_edges_def)
  finally show ?thesis .
qed

lemma below_snoc:
  "below N k j es \<Longrightarrow> k < j \<Longrightarrow> j < N \<Longrightarrow> below N k (Suc j) (es @ [(k, j, w)])"
  unfolding below_def by fastforce

lemma below_next:
  "below N k (Suc k) es \<Longrightarrow> k < N \<Longrightarrow> below N (Suc k) (Suc (Suc k)) (es @ pair_edges N W k)"
  unfolding below_def pair_edges_def by fastforce

lemma neighbor_loop:
  assumes mom: "\<And>i. i < N \<Longrightarrow> mom i = Some (P i)"
  shows "below N k j0 es \<Longrightarrow> k < j0 \<Longrightarrow> j0 \<le> N \<Longrightarrow>
     fold_err (neighbor_step n mom k) [j0..<N] (with_edges N site es) =
       Inr (with_edges N site
              (es @ map (\<lambda>j. (k, j, define_forward_scattering_term n (P k) (P j))) [j0..<N]))"
proof (induction "N - j0" arbitrary: j0 es)
  case 0
  then show ?case by simp
next
  case (Suc d)
  then have j: "j0 < N" and k: "k < N" by simp_all
  let ?w = "define_forward_scattering_term n (P k) (P j0)"
  have c: "gen_couplings n k j0 mom = Inr ?w"
    by (simp add: gen_couplings_def mom [OF j] mom [OF k])
  have kj: "k \<noteq> j0" using Suc.prems by simp
  have s: "neighbor_step n mom k j0 (with_edges N site es) = Inr (with_edges N site (es @ [(k, j0, ?w)]))"
    using add_edge_with_edges [OF k j kj below_fresh [OF Suc.prems(1,2)], of site ?w]
    by (simp add: neighbor_step_def c)
  have b: "below N k (Suc j0) (es @ [(k, j0, ?w)])"
    by (rule below_snoc [OF Suc.prems(1,2) j])
  have d: "d = N - Suc j0" using Suc.hyps(2) by simp
  have ih: "fold_err (neighbor_step n mom k) [Suc j0..<N] (with_edges N site (es @ [(k, j0, ?w)])) =
     Inr (with_edges N site ((es @ [(k, j0, ?w)]) @
            map (\<lambda>j. (k, j, define_forward_scattering_term n (P k) (P j))) [Suc j0..<N]))"
    using Suc.hyps(1) [OF d b] Suc.prems(2) j by simp
  show ?case using ih by (simp add: upt_conv_Cons [OF j] s)
qed

lemma curr_loop:
  assumes mom: "\<And>i. i < N \<Longrightarrow> mom i = Some (P i)"
    and W: "W = (\<lambda>i j. define_forward_scattering_term n (P i) (P j))"
  shows "below N k0 (Suc k0) es \<Longrightarrow> k0 \<le> N \<Longrightarrow>
     fold_err (curr_step n mom) (map (\<lambda>i. (i, i)) [k0..<N]) (with_edges N site es) =
       Inr (with_edges N site (es @ concat (map (pair_edges N W) [k0..<N])))"
proof (induction "N - k0" arbitrary: k0 es)
  case 0
  then show ?case by simp
next
  case (Suc d)
  then have k: "k0 < N" by simp
  have s: "curr_step n mom (k0, k0) (with_edges N site es) = Inr (with_edges N site (es @ pair_edges N W k0))"
    using neighbor_loop [of N mom P k0 "Suc k0" es n site, OF mom Suc.prems(1)] k
    by (simp add: curr_step_def nodes_with_edges W pair_edges_def)
  have d: "d = N - Suc k0" using Suc.hyps(2) by simp
  have ih: "fold_err (curr_step n mom) (map (\<lambda>i. (i, i)) [Suc k0..<N]) (with_edges N site (es @ pair_edges N W k0)) =
       Inr (with_edges N site ((es @ pair_edges N W k0) @ concat (map (pair_edges N W) [Suc k0..<N])))"
    using Suc.hyps(1) [OF d below_next [OF Suc.prems(1) k]] k by simp
  show ?case using ih by (simp add: upt_conv_Cons [OF k] s)
qed

lemma generate_heisenberg_graph_closed:
  "generate_heisenberg_graph n site draws = Inr (with_edges (nat n) site (all_edges n draws))"
proof -
  let ?mom = "\<lambda>i. if i < nat n then Some (generate_spherical_momentum (draws i)) else None"
  have b: "below (nat n) 0 (Suc 0) []" by (simp add: below_def)
  have e: "enumerate 0 [0..<nat n] = map (\<lambda>i. (i, i)) [0..<nat n]"
    by (simp add: enumerate_eq_zip zip_same_conv_map)
  have "fold_err (curr_step n ?mom) (map (\<lambda>i. (i, i)) [0..<nat n]) (with_edges (nat n) site []) =
       Inr (with_edges (nat n) site ([] @ concat (map (pair_edges (nat n) (coupling n draws)) [0..<nat n])))"
    by (rule curr_loop [of "nat n" ?mom "sampled draws", OF _ _ b]) (simp_all add: coupling_def fun_eq_iff sampled_def)
  then show ?thesis
    by (simp add: generate_heisenberg_graph_def node_loop nodes_with_edges e all_edges_def)
qed

lemma row_concat: "row (concat xss) i = concat (map (\<lambda>xs. row xs i) xss)"
  by (induction xss) (simp_all add: row_def)

lemma concat_hit:
  "distinct xs \<Longrightarrow> concat (map (\<lambda>j. if j = i then [f j] else []) xs) = (if i \<in> set xs then [f i] else [])"
  by (induction xs) auto

lemma concat_singletons: "concat (map (\<lambda>u. [f u]) xs) = map f xs"
  by (induction xs) simp_all

lemma row_pair_edges:
  "row (pair_edges N W u) i =
     (if u = i then map (\<lambda>j. (j, Some (W i j))) [Suc i..<N]
      else if u < i \<and> i < N then [(u, Some (W u i))] else [])"
proof (cases "u = i")
  case True
  then show ?thesis by (simp add: row_def pair_edges_def comp_def concat_singletons)
next
  case False
  have "row (pair_edges N W u) i = concat (map (\<lambda>j. if j = i then [(u, Some (W u j))] else []) [Suc u..<N])"
    using False by (simp add: row_def pair_edges_def comp_def)
  also have "\<dots> = (if i \<in> set [Suc u..<N] then [(u, Some (W u i))] else [])"
    by (rule concat_hit) simp
  finally show ?thesis using False by auto
qed

lemma row_all:
  assumes "i < N"
  shows "row (concat (map (pair_edges N W) [0..<N])) i = full_row N W i"
proof -
  have split: "[0..<N] = [0..<i] @ i # [Suc i..<N]"
    using assms by (metis upt_add_eq_append upt_conv_Cons le_add_diff_inverse less_imp_le zero_le)
  have lo: "concat (map (\<lambda>u. row (pair_edges N W u) i) [0..<i]) = map (\<lambda>u. (u, Some (W u i))) [0..<i]"
  proof -
    have "map (\<lambda>u. row (pair_edges N W u) i) [0..<i] = map (\<lambda>u. [(u, Some (W u i))]) [0..<i]"
      using assms by (intro map_cong) (simp_all add: row_pair_edges)
    then have "concat (map (\<lambda>u. row (pair_edges N W u) i) [0..<i]) =
        concat (map (\<lambda>u. [(u, Some (W u i))]) [0..<i])" by (rule arg_cong)
    then show ?thesis unfolding concat_singletons .
  qed
  have hi: "concat (map (\<lambda>u. row (pair_edges N W u) i) [Suc i..<N]) = []"
    by (simp add: row_pair_edges)
  have mid: "row (pair_edges N W i) i = map (\<lambda>j. (j, Some (W i j))) [Suc i..<N]"
    by (simp add: row_pair_edges)
  have "row (concat (map (pair_edges N W) [0..<N])) i =
      concat (map (\<lambda>u. row (pair_edges N W u) i) ([0..<i] @ i # [Suc i..<N]))"
    unfolding row_concat map_map comp_def using split by simp
  also have "\<dots> = concat (map (\<lambda>u. row (pair_edges N W u) i) [0..<i]) @ row (pair_edges N W i) i
      @ concat (map (\<lambda>u. row (pair_edges N W u) i) [Suc i..<N])"
    by simp
  also have "\<dots> = full_row N W i"
    unfolding lo hi mid by (simp add: full_row_def)
  finally show ?thesis .
qed

lemma edges_from_full:
  "set seen = {0..<k} \<Longrightarrow> k \<le> N \<Longrightarrow>
     edges_from seen (map (\<lambda>i. (i, full_row N W i)) [k..<N]) =
       map (\<lambda>(i, j, w). (i, j, Some w)) (concat (map (pair_edges N W) [k..<N]))"
proof (induction "N - k" arbitrary: k seen)
  case 0
  then show ?case by simp
next
  case (Suc d)
  then have k: "k < N" by simp
  have f1: "filter (\<lambda>(nbr, dd). nbr \<notin> set seen) (map (\<lambda>u. (u, Some (W u k))) [0..<k]) = []"
    using Suc.prems(1) by (simp add: filter_empty_conv)
  have f2: "filter (\<lambda>(nbr, dd). nbr \<notin> set seen) (map (\<lambda>j. (j, Some (W k j))) [Suc k..<N])
              = map (\<lambda>j. (j, Some (W k j))) [Suc k..<N]"
    using Suc.prems(1) by (simp add: filter_id_conv)
  have s: "set (k # seen) = {0..<Suc k}" using Suc.prems(1) by auto
  have d: "d = N - Suc k" using Suc.hyps(2) by simp
  have ih: "edges_from (k # seen) (map (\<lambda>i. (i, full_row N W i)) [Suc k..<N]) =
       map (\<lambda>(i, j, w). (i, j, Some w)) (concat (map (pair_edges N W) [Suc k..<N]))"
    using Suc.hyps(1) [OF d s] k by simp
  show ?case
    by (simp add: upt_conv_Cons [OF k] ih) (simp add: full_row_def f1 f2 pair_edges_def comp_def)
qed

lemma with_edges_all:
  "with_edges N site (concat (map (pair_edges N W) [0..<N])) =
     \<lparr>node = map (\<lambda>i. (i, Some site)) [0..<N], adj = map (\<lambda>i. (i, full_row N W i)) [0..<N]\<rparr>"
  by (simp add: with_edges_def row_all)

lemma edges_data_all:
  "edges_data (with_edges N site (concat (map (pair_edges N W) [0..<N]))) =
     map (\<lambda>(i, j, w). (i, j, Some w)) (concat (map (pair_edges N W) [0..<N]))"
  using edges_from_full [of "[]" 0 N W] by (simp add: with_edges_all edges_data_def)

lemma index_of_upt: "a \<le> k \<Longrightarrow> k < b \<Longrightarrow> index_of [a..<b] k = k - a"
proof (induction "b - a" arbitrary: a)
  case 0
  then show ?case by simp
next
  case (Suc d)
  then have ab: "a < b" by simp
  show ?case
  proof (cases "a = k")
    case True
    then show ?thesis using ab by (simp add: upt_conv_Cons)
  next
    case False
    then have "index_of [Suc a..<b] k = k - Suc a"
      using Suc.hyps(1) [of "Suc a"] Suc.hyps(2) Suc.prems by simp
    then show ?thesis using False Suc.prems by (simp add: upt_conv_Cons [OF ab])
  qed
qed

lemma full_row_keys: "i < N \<Longrightarrow> (j, d) \<in> set (full_row N W i) \<Longrightarrow> j < N \<and> j \<noteq> i"
  by (auto simp: full_row_def)

lemma flatten_all:
  "flatten_nx_graph (with_edges N site (concat (map (pair_edges N W) [0..<N]))) =
     with_edges N site (concat (map (pair_edges N W) [0..<N]))"
proof -
  let ?g = "\<lparr>node = map (\<lambda>i. (i, Some site)) [0..<N], adj = map (\<lambda>i. (i, full_row N W i)) [0..<N]\<rparr>"
  have n: "nodes ?g = [0..<N]" by (simp add: nodes_def comp_def)
  have ix: "k < N \<Longrightarrow> index_of [0..<N] k = k" for k
    using index_of_upt [of 0 k N] by simp
  have r: "map (\<lambda>(j, d). (index_of [0..<N] j, d)) (full_row N W i) = full_row N W i" if "i < N" for i
    using full_row_keys [OF that] by (intro map_idI) (auto simp: ix)
  have a: "map (\<lambda>(k, ns). (index_of [0..<N] k, map (\<lambda>(j, d). (index_of [0..<N] j, d)) ns))
             (map (\<lambda>i. (i, full_row N W i)) [0..<N]) = map (\<lambda>i. (i, full_row N W i)) [0..<N]"
    by (simp add: comp_def ix r)
  have b: "map (\<lambda>(k, a). (index_of [0..<N] k, a)) (map (\<lambda>i. (i, Some site)) [0..<N])
             = map (\<lambda>i. (i, Some site)) [0..<N]"
    by (simp add: comp_def ix)
  have "flatten_nx_graph ?g = ?g"
    unfolding flatten_nx_graph_def Let_def n using a b by simp
  then show ?thesis by (simp add: with_edges_all)
qed

lemma edge_weight_all:
  assumes "i < N" and "j < N" and "i \<noteq> j"
  shows "edge_weight (with_edges N site (concat (map (pair_edges N W) [0..<N]))) i j =
           Some (W (min i j) (max i j))"
proof -
  have "map_of (full_row N W i) j = Some (Some (W (min i j) (max i j)))"
    using assms by (auto simp: full_row_def map_of_append map_of_tab_list map_add_def min_def max_def
        split: option.splits)
  then show ?thesis
    using assms(1) by (simp add: edge_weight_def nbrs_def with_edges_all map_of_tab)
qed

lemma edge_weight_self:
  assumes "i < N"
  shows "edge_weight (with_edges N site (concat (map (pair_edges N W) [0..<N]))) i i = None"
proof -
  have "map_of (full_row N W i) i = None"
    by (auto simp: full_row_def map_of_append map_of_tab_list map_add_def split: option.splits)
  then show ?thesis
    using assms(1) by (simp add: edge_weight_def nbrs_def with_edges_all map_of_tab)
qed

lemma length_pairs: "length (concat (map (pair_edges N W) [0..<N])) = N * (N - 1) div 2"
proof -
  have "length (concat (map (pair_edges N W) [0..<N])) = sum_list (map (\<lambda>i. N - Suc i) [0..<N])"
    by (simp add: length_concat comp_def pair_edges_def)
  also have "\<dots> = (\<Sum>i<N. N - Suc i)"
    by (simp add: interv_sum_list_conv_sum_set_nat atLeast0LessThan)
  also have "\<dots> = (\<Sum>i<N. i)"
    by (rule sum.nat_diff_reindex)
  also have "\<dots> = N * (N - 1) div 2"
  proof -
    have "2 * (\<Sum>i<N. i) = N * (N - 1)"
    proof (induction N)
      case 0
      show ?case by simp
    next
      case (Suc N)
      then show ?case by (cases N) simp_all
    qed
    then show ?thesis by simp
  qed
  finally show ?thesis .
qed

lemma all_edges_unfold: "all_edges n draws = concat (map (pair_edges (nat n) (coupling n draws)) [0..<nat n])"
  by (simp add: all_edges_def)

lemma ends_pairs_lower:
  "p \<in> set (concat (map (pair_edges N W) [k..<N])) \<Longrightarrow> k \<le> fst p"
  by (auto simp: pair_edges_def)

lemma distinct_pairs:
  "distinct (map ends (concat (map (pair_edges N W) [k..<N])))"
proof (induction "N - k" arbitrary: k)
  case 0
  then show ?case by simp
next
  case (Suc d)
  then have k: "k < N" by simp
  have d: "d = N - Suc k" using Suc.hyps(2) by simp
  have a: "distinct (map ends (pair_edges N W k))"
    by (simp add: pair_edges_def distinct_map comp_def ends_def inj_on_def)
  have b: "fst (ends p) = fst p" for p :: "nat \<times> nat \<times> real"
    by (cases p) (simp add: ends_def)
  have c: "set (map ends (pair_edges N W k)) \<inter> set (map ends (concat (map (pair_edges N W) [Suc k..<N]))) = {}"
  proof -
    have "fst q = k" if "q \<in> set (map ends (pair_edges N W k))" for q
      using that by (auto simp: pair_edges_def ends_def)
    moreover have "Suc k \<le> fst q" if "q \<in> set (map ends (concat (map (pair_edges N W) [Suc k..<N])))" for q
    proof -
      from that obtain p where p: "p \<in> set (concat (map (pair_edges N W) [Suc k..<N]))" and q: "q = ends p"
        by auto
      from ends_pairs_lower [OF p] show ?thesis by (simp add: q b)
    qed
    ultimately have "q \<notin> set (map ends (concat (map (pair_edges N W) [Suc k..<N])))"
      if "q \<in> set (map ends (pair_edges N W k))" for q
      using that by (metis Suc_n_not_le_n)
    then show ?thesis by blast
  qed
  show ?case
    using a c Suc.hyps(1) [OF d] by (simp add: upt_conv_Cons [OF k])
qed

lemma mem_pairs:
  "p \<in> set (concat (map (pair_edges N W) [0..<N])) \<longleftrightarrow>
     (\<exists>i j. p = (i, j, W i j) \<and> i < j \<and> j < N)"
proof
  assume "p \<in> set (concat (map (pair_edges N W) [0..<N]))"
  then show "\<exists>i j. p = (i, j, W i j) \<and> i < j \<and> j < N"
    by (auto simp: pair_edges_def)
next
  assume "\<exists>i j. p = (i, j, W i j) \<and> i < j \<and> j < N"
  then obtain i j where p: "p = (i, j, W i j)" and ij: "i < j" "j < N" by blast
  have "p \<in> set (pair_edges N W i)" using ij by (simp add: p pair_edges_def image_iff)
  moreover have "i \<in> set [0..<N]" using ij by simp
  ultimately show "p \<in> set (concat (map (pair_edges N W) [0..<N]))"
    unfolding set_concat set_map by blast
qed

lemma set_pairs:
  "set (map ends (concat (map (pair_edges N W) [0..<N]))) = {(i, j). i < j \<and> j < N}"
proof (rule set_eqI)
  fix q :: "nat \<times> nat"
  obtain a b where q: "q = (a, b)" by (cases q)
  have "q \<in> set (map ends (concat (map (pair_edges N W) [0..<N]))) \<longleftrightarrow>
        (\<exists>p. p \<in> set (concat (map (pair_edges N W) [0..<N])) \<and> q = ends p)"
    unfolding set_map by blast
  also have "\<dots> \<longleftrightarrow> (\<exists>i j. q = (i, j) \<and> i < j \<and> j < N)"
    unfolding mem_pairs by (auto simp: ends_def)
  also have "\<dots> \<longleftrightarrow> q \<in> {(i, j). i < j \<and> j < N}"
    by (simp add: q)
  finally show "q \<in> set (map ends (concat (map (pair_edges N W) [0..<N]))) \<longleftrightarrow>
        q \<in> {(i, j). i < j \<and> j < N}" .
qed

lemma ends_weighted:
  "map ends (map (\<lambda>(i, j, w). (i, j, Some w)) es) = map ends es"
  by (induction es) (auto simp: ends_def)

lemma number_of_nodes_with_edges: "number_of_nodes (with_edges N site es) = N"
  by (simp add: number_of_nodes_def with_edges_def)

lemma mem_all_edges:
  "p \<in> set (all_edges n draws) \<longleftrightarrow>
     (\<exists>i j. p = (i, j, coupling n draws i j) \<and> i < j \<and> j < nat n)"
  unfolding all_edges_unfold by (rule mem_pairs)

text \<open>
  C4. For a positive count n the builder returns a graph whose nodes are 0, ..., n - 1 in
  order, n of them, with exactly n * (n - 1) / 2 edges: one edge, reported once, for every
  pair i < j of nodes, a weight on each, the same read from either end, no self-loop, and
  the site interaction as the weight of every node.
\<close>

theorem complete_graph_shape:
  assumes "0 < n"
  shows "\<exists>g. generate_heisenberg_graph n site draws = Inr g
      \<and> nodes g = [0..<nat n]
      \<and> int (number_of_nodes g) = n
      \<and> int (length (edges_data g)) = n * (n - 1) div 2
      \<and> distinct (map ends (edges_data g))
      \<and> set (map ends (edges_data g)) = {(i, j). i < j \<and> j < nat n}
      \<and> (\<forall>i<nat n. \<forall>j<nat n. i \<noteq> j \<longrightarrow>
            edge_weight g i j \<noteq> None \<and> edge_weight g j i = edge_weight g i j)
      \<and> (\<forall>i<nat n. edge_weight g i i = None \<and> map_of (node g) i = Some (Some site))"
proof -
  let ?N = "nat n"
  let ?W = "coupling n draws"
  let ?g = "with_edges ?N site (concat (map (pair_edges ?N ?W) [0..<?N]))"
  have g: "generate_heisenberg_graph n site draws = Inr ?g"
    by (simp add: generate_heisenberg_graph_closed all_edges_def)
  have c1: "nodes ?g = [0..<?N]" by (rule nodes_with_edges)
  have c2: "int (number_of_nodes ?g) = n" using assms by (simp add: number_of_nodes_with_edges)
  have "int (?N * (?N - 1) div 2) = n * (n - 1) div 2"
    using assms by (simp add: zdiv_int of_nat_diff)
  then have c3: "int (length (edges_data ?g)) = n * (n - 1) div 2"
    by (simp add: edges_data_all length_pairs)
  have c4: "distinct (map ends (edges_data ?g))"
    unfolding edges_data_all ends_weighted by (rule distinct_pairs)
  have c5: "set (map ends (edges_data ?g)) = {(i, j). i < j \<and> j < ?N}"
    unfolding edges_data_all ends_weighted by (rule set_pairs)
  have c6: "\<forall>i<?N. \<forall>j<?N. i \<noteq> j \<longrightarrow>
            edge_weight ?g i j \<noteq> None \<and> edge_weight ?g j i = edge_weight ?g i j"
    by (simp add: edge_weight_all min.commute max.commute)
  have c7: "\<forall>i<?N. edge_weight ?g i i = None \<and> map_of (node ?g) i = Some (Some site)"
    by (simp add: edge_weight_self) (simp add: with_edges_def map_of_tab)
  show ?thesis
    by (rule exI [of _ ?g]) (intro conjI g c1 c2 c3 c4 c5 c6 c7)
qed

theorem complete_graph_shape_witness:
  "(0::int) < 3
   \<and> (\<exists>g. generate_heisenberg_graph 3 0 (\<lambda>k. (3, 0, 4)) = Inr g
        \<and> nodes g = [0, 1, 2] \<and> length (edges_data g) = 3)"
proof -
  have h: "(0::int) < 3" by simp
  from complete_graph_shape [OF h, of 0 "\<lambda>k. (3, 0, 4)"]
  obtain g where g: "generate_heisenberg_graph 3 0 (\<lambda>k. (3, 0, 4)) = Inr g"
    and n: "nodes g = [0..<nat 3]"
    and e: "int (length (edges_data g)) = 3 * (3 - 1) div 2"
    by (elim exE conjE)
  have "nodes g = [0, 1, 2]" using n by (simp add: numeral_3_eq_3)
  moreover have "length (edges_data g) = 3" using e by simp
  ultimately show ?thesis using h g by (intro conjI exI [of _ g])
qed

text \<open>
  C3. For two distinct particles i and j the weight of the edge between them, as the
  builder attaches it, is (1 / (sqrt 2 * n_particles)) * (1 - p_i . p_j), where p_k is the
  momentum sampled for particle k and . is the inner product of 3-vectors.
\<close>

theorem edge_weight_formula:
  assumes "i < nat n" and "j < nat n" and "i \<noteq> j"
  shows "\<exists>g. generate_heisenberg_graph n site draws = Inr g
      \<and> edge_weight g i j =
          Some ((1 / (sqrt 2 * real_of_int n))
                * (1 - np_inner (generate_spherical_momentum (draws i))
                                (generate_spherical_momentum (draws j))))"
proof -
  have "coupling n draws (min i j) (max i j) = coupling n draws i j"
    by (simp add: coupling_def define_forward_scattering_term_def min_def max_def np_inner_commute)
  then show ?thesis
    unfolding generate_heisenberg_graph_closed all_edges_unfold
    using edge_weight_all [OF assms, of site "coupling n draws"]
    by (simp add: coupling_def sampled_def define_forward_scattering_term_def)
qed

theorem edge_weight_formula_witness:
  "(0::nat) < nat 2 \<and> (1::nat) < nat 2 \<and> (0::nat) \<noteq> 1
   \<and> (\<exists>g. generate_heisenberg_graph 2 0 (\<lambda>k. if k = 0 then (3, 0, 4) else (0, 5, 0)) = Inr g
        \<and> edge_weight g 0 1 = Some (1 / (sqrt 2 * 2)))"
  using edge_weight_formula [of 0 2 1 0 "\<lambda>k. if k = 0 then (3, 0, 4) else (0, 5, 0)"]
  by simp

section \<open>The pipeline\<close>

lemma weighted_all: "weighted (with_edges N site (concat (map (pair_edges N W) [0..<N])))"
  by (auto simp: weighted_def edges_data_all list_all_iff)

lemma pipeline_closed:
  "generate_forward_scattering n site draws =
     Inr (concat (map (\<lambda>(i, j, w). edge_terms (with_edges (nat n) site (all_edges n draws)) (nat n) i j w)
                      (all_edges n draws)))"
proof -
  let ?g = "with_edges (nat n) site (all_edges n draws)"
  have f: "flatten_nx_graph ?g = ?g" unfolding all_edges_unfold by (rule flatten_all)
  have w: "weighted ?g" unfolding all_edges_unfold by (rule weighted_all)
  have e: "edges_data ?g = map (\<lambda>(i, j, w). (i, j, Some w)) (all_edges n draws)"
    unfolding all_edges_unfold by (rule edges_data_all)
  have m: "(\<lambda>(n1, n2, d). edge_terms ?g (nat n) n1 n2 (the d)) \<circ> (\<lambda>(i, j, w). (i, j, Some w))
         = (\<lambda>(i, j, w). edge_terms ?g (nat n) i j w)"
    by (auto simp: fun_eq_iff)
  show ?thesis
    unfolding generate_forward_scattering_def generate_heisenberg_graph_closed
    by (simp add: f nx_heisenberg_terms_concat [OF w] e m nodes_with_edges)
qed

lemma edge_terms_nodes:
  "number_of_nodes g = number_of_nodes g' \<Longrightarrow> edge_terms g n a b w = edge_terms g' n a b w"
  by (simp add: edge_terms_def axis_step_def)

lemma all_edges_2: "all_edges 2 draws = [(0, 1, coupling 2 draws 0 1)]"
  by (simp add: all_edges_def pair_edges_def numeral_2_eq_2)

text \<open>
  C7. For a particle count of 1, and for every count that is zero or negative, the
  pipeline raises no error and returns the empty term sequence.
\<close>

theorem degenerate_counts_empty:
  assumes "n \<le> 1"
  shows "generate_forward_scattering n site draws = Inr []"
proof -
  have "nat n = 0 \<or> nat n = Suc 0" using assms by auto
  then have "all_edges n draws = []"
    by (auto simp: all_edges_def pair_edges_def)
  then show ?thesis by (simp add: pipeline_closed)
qed

theorem degenerate_counts_empty_witness:
  "(1::int) \<le> 1 \<and> generate_forward_scattering 1 0 (\<lambda>k. (3, 0, 4)) = Inr []
   \<and> (- 2::int) \<le> 1 \<and> generate_forward_scattering (- 2) 0 (\<lambda>k. (3, 0, 4)) = Inr []"
  using degenerate_counts_empty [of 1 0 "\<lambda>k. (3, 0, 4)"]
    degenerate_counts_empty [of "- 2" 0 "\<lambda>k. (3, 0, 4)"] by simp

text \<open>
  C8. For every particle count and every sequence of draws, two runs that differ only in
  the site interaction both return, and return the same term sequence.
\<close>

theorem site_interaction_noninterference:
  "\<exists>H. generate_forward_scattering n s1 draws = Inr H
      \<and> generate_forward_scattering n s2 draws = Inr H"
proof -
  have "edge_terms (with_edges (nat n) s1 (all_edges n draws)) (nat n) i j w =
        edge_terms (with_edges (nat n) s2 (all_edges n draws)) (nat n) i j w" for i j w
    by (rule edge_terms_nodes) (simp add: number_of_nodes_with_edges)
  then show ?thesis by (simp add: pipeline_closed)
qed

text \<open>
  C2. With two particles and site interaction 0 the graph has the single edge (0, 1) and
  the expansion returns exactly six terms:
  XI, XX, YX, YY, ZY, ZZ in this order, so the buffer ends the three axis passes at XX, YY
  and ZZ with a partial overwrite before each, and all six carry the coupling weight of
  the two particles' momenta.
\<close>

theorem two_particle_scenario:
  "(\<exists>g. generate_heisenberg_graph 2 0 draws = Inr g \<and> map ends (edges_data g) = [(0, 1)])
   \<and> generate_forward_scattering 2 0 draws =
   (let w = define_forward_scattering_term 2 (generate_spherical_momentum (draws 0))
              (generate_spherical_momentum (draws 1))
    in Inr [(''XI'', w), (''XX'', w), (''YX'', w), (''YY'', w), (''ZY'', w), (''ZZ'', w)])"
proof -
  let ?w = "coupling 2 draws 0 (Suc 0)"
  let ?g = "\<lparr>node = [(0, Some 0), (Suc 0, Some 0)], adj = [(0, [(Suc 0, Some ?w)]), (Suc 0, [(0, Some ?w)])]\<rparr>"
  have g: "with_edges 2 0 (all_edges 2 draws) = ?g"
    by (simp add: all_edges_2 with_edges_def row_def numeral_2_eq_2)
  have f: "flatten_nx_graph ?g = ?g"
    by (simp add: flatten_nx_graph_def nodes_def)
  have e: "edges_data ?g = [(0, Suc 0, Some ?w)]"
    by (simp add: edges_data_def)
  have t: "nx_heisenberg_terms ?g =
      Inr [(''XI'', ?w), (''XX'', ?w), (''YX'', ?w), (''YY'', ?w), (''ZY'', ?w), (''ZZ'', ?w)]"
    unfolding nx_heisenberg_terms_def Let_def e
    by (simp add: edge_step_def axis_step_def number_of_nodes_def nodes_def site_step_def Let_def)
  have b: "generate_heisenberg_graph 2 0 draws = Inr ?g"
    unfolding generate_heisenberg_graph_closed by (simp add: g)
  have one: "\<exists>g. generate_heisenberg_graph 2 0 draws = Inr g \<and> map ends (edges_data g) = [(0, 1)]"
    by (rule exI [of _ ?g]) (simp add: b e ends_def)
  have six: "generate_forward_scattering 2 0 draws =
   (let w = define_forward_scattering_term 2 (generate_spherical_momentum (draws 0))
              (generate_spherical_momentum (draws 1))
    in Inr [(''XI'', w), (''XX'', w), (''YX'', w), (''YY'', w), (''ZY'', w), (''ZZ'', w)])"
    unfolding generate_forward_scattering_def b
    by (simp add: f t Let_def) (simp add: coupling_def sampled_def)
  show ?thesis by (intro conjI one six)
qed

text \<open>
  C9. In any graph of N nodes, the terms emitted for an edge (a, b) whose smaller end
  is below N start with exactly min a b terms whose string is all-Identity and whose
  weight is the edge's weight, and no later term of the edge is all-Identity. Every edge
  (a, b) of the graph that the pipeline expands has a < b and is such an edge, so its first
  a terms are all-Identity with the edge's coupling; with three or more particles the
  returned Hamiltonian contains the all-Identity string with the coupling of the
  particles 1 and 2.
\<close>

theorem identity_terms_per_edge:
  "(\<forall>g' a b w. min a b < number_of_nodes g' \<longrightarrow>
      (\<exists>ts. (\<forall>h. edge_step g' (length (nodes g')) (a, b, Some w) h
                    = Inr (h @ replicate (min a b) (replicate (number_of_nodes g') CHR ''I'', w) @ ts))
            \<and> (\<forall>t\<in>set ts. \<not> all_identity (fst t) \<and> snd t = w)))
   \<and> (\<exists>g. generate_heisenberg_graph n site draws = Inr g
      \<and> (\<forall>(a, b, d)\<in>set (edges_data (flatten_nx_graph g)).
            a < b
            \<and> (\<exists>w ts. d = Some w
                 \<and> (\<forall>h. edge_step (flatten_nx_graph g) (length (nodes (flatten_nx_graph g))) (a, b, d) h
                         = Inr (h @ replicate (min a b) (replicate (nat n) CHR ''I'', w) @ ts))
                 \<and> (\<forall>t\<in>set ts. \<not> all_identity (fst t) \<and> snd t = w)))
      \<and> (3 \<le> n \<longrightarrow>
            (\<exists>H. generate_forward_scattering n site draws = Inr H
               \<and> (replicate (nat n) CHR ''I'',
                    define_forward_scattering_term n (generate_spherical_momentum (draws 1))
                      (generate_spherical_momentum (draws 2))) \<in> set H)))"
proof -
  let ?N = "nat n"
  let ?g = "with_edges ?N site (all_edges n draws)"
  let ?I = "replicate ?N CHR ''I''"
  have g: "generate_heisenberg_graph n site draws = Inr ?g"
    by (rule generate_heisenberg_graph_closed)
  have f: "flatten_nx_graph ?g = ?g" unfolding all_edges_unfold by (rule flatten_all)
  have e: "edges_data ?g = map (\<lambda>(i, j, w). (i, j, Some w)) (all_edges n draws)"
    unfolding all_edges_unfold by (rule edges_data_all)
  have shape: "\<exists>ts. edge_terms ?g ?N a b w = replicate (min a b) (?I, w) @ ts
                 \<and> (\<forall>t\<in>set ts. \<not> all_identity (fst t) \<and> snd t = w)"
    if "a < b" "b < ?N" for a b w
    by (rule edge_terms_shape) (use that in \<open>simp_all add: number_of_nodes_with_edges\<close>)
  have per_edge: "a < b
            \<and> (\<exists>w ts. d = Some w
                 \<and> (\<forall>h. edge_step ?g (length (nodes ?g)) (a, b, d) h
                         = Inr (h @ replicate (min a b) (?I, w) @ ts))
                 \<and> (\<forall>t\<in>set ts. \<not> all_identity (fst t) \<and> snd t = w))"
    if "(a, b, d) \<in> set (edges_data ?g)" for a b d
  proof -
    from that obtain w where d: "d = Some w" and m: "(a, b, w) \<in> set (all_edges n draws)"
      unfolding e by auto
    from m have ab: "a < b" "b < ?N" unfolding mem_all_edges by auto
    from shape [OF ab, of w] obtain ts where
      ts: "edge_terms ?g ?N a b w = replicate (min a b) (?I, w) @ ts"
        "\<forall>t\<in>set ts. \<not> all_identity (fst t) \<and> snd t = w" by blast
    have "\<forall>h. edge_step ?g (length (nodes ?g)) (a, b, d) h
                = Inr (h @ replicate (min a b) (?I, w) @ ts)"
      by (simp add: d edge_step_terms nodes_with_edges ts(1))
    with ab(1) d ts(2) show ?thesis by blast
  qed
  have some: "\<exists>H. generate_forward_scattering n site draws = Inr H
               \<and> (?I, define_forward_scattering_term n (generate_spherical_momentum (draws 1))
                      (generate_spherical_momentum (draws 2))) \<in> set H" if "3 \<le> n"
  proof -
    let ?w = "coupling n draws 1 2"
    have m: "(1, 2, ?w) \<in> set (all_edges n draws)"
      unfolding mem_all_edges using that by auto
    have lt: "(1::nat) < 2" "2 < ?N" using that by simp_all
    from shape [OF lt, of ?w] obtain ts where
      "edge_terms ?g ?N 1 2 ?w = replicate (min 1 2) (?I, ?w) @ ts" by blast
    then have "(?I, ?w) \<in> set (edge_terms ?g ?N 1 2 ?w)" by simp
    moreover have "edge_terms ?g ?N 1 2 ?w
        \<in> set (map (\<lambda>(i, j, w). edge_terms ?g ?N i j w) (all_edges n draws))"
      unfolding set_map using imageI [OF m, of "\<lambda>(i, j, w). edge_terms ?g ?N i j w"] by simp
    ultimately have "(?I, ?w) \<in> set (concat (map (\<lambda>(i, j, w). edge_terms ?g ?N i j w) (all_edges n draws)))"
      unfolding set_concat by (rule UN_I [rotated])
    then show ?thesis
      by (simp add: pipeline_closed coupling_def sampled_def)
  qed
  have all: "\<forall>(a, b, d)\<in>set (edges_data (flatten_nx_graph ?g)).
            a < b
            \<and> (\<exists>w ts. d = Some w
                 \<and> (\<forall>h. edge_step (flatten_nx_graph ?g) (length (nodes (flatten_nx_graph ?g))) (a, b, d) h
                         = Inr (h @ replicate (min a b) (?I, w) @ ts))
                 \<and> (\<forall>t\<in>set ts. \<not> all_identity (fst t) \<and> snd t = w))"
    unfolding f
  proof (rule ballI)
    fix x assume x: "x \<in> set (edges_data ?g)"
    obtain a b d where xe: "x = (a, b, d)" by (cases x)
    show "case x of (a, b, d) \<Rightarrow> a < b
            \<and> (\<exists>w ts. d = Some w
                 \<and> (\<forall>h. edge_step ?g (length (nodes ?g)) (a, b, d) h
                         = Inr (h @ replicate (min a b) (?I, w) @ ts))
                 \<and> (\<forall>t\<in>set ts. \<not> all_identity (fst t) \<and> snd t = w))"
      unfolding xe prod.case by (rule per_edge [OF x [unfolded xe]])
  qed
  have general: "\<exists>ts. (\<forall>h. edge_step g' (length (nodes g')) (a, b, Some w) h
                    = Inr (h @ replicate (min a b) (replicate (number_of_nodes g') CHR ''I'', w) @ ts))
            \<and> (\<forall>t\<in>set ts. \<not> all_identity (fst t) \<and> snd t = w)"
    if "min a b < number_of_nodes g'" for g' a b w
  proof -
    have l: "length (nodes g') = number_of_nodes g'"
      by (simp add: nodes_def number_of_nodes_def)
    from edge_terms_shape [OF refl that refl, of w] obtain ts where
      ts: "edge_terms g' (number_of_nodes g') a b w
             = replicate (min a b) (replicate (number_of_nodes g') CHR ''I'', w) @ ts"
        "\<forall>t\<in>set ts. \<not> all_identity (fst t) \<and> snd t = w" by blast
    have "\<forall>h. edge_step g' (length (nodes g')) (a, b, Some w) h
                    = Inr (h @ replicate (min a b) (replicate (number_of_nodes g') CHR ''I'', w) @ ts)"
      by (simp add: l edge_step_terms ts(1))
    with ts(2) show ?thesis by (intro exI [of _ ts] conjI)
  qed
  have pipeline: "\<exists>g. generate_heisenberg_graph n site draws = Inr g
      \<and> (\<forall>(a, b, d)\<in>set (edges_data (flatten_nx_graph g)).
            a < b
            \<and> (\<exists>w ts. d = Some w
                 \<and> (\<forall>h. edge_step (flatten_nx_graph g) (length (nodes (flatten_nx_graph g))) (a, b, d) h
                         = Inr (h @ replicate (min a b) (?I, w) @ ts))
                 \<and> (\<forall>t\<in>set ts. \<not> all_identity (fst t) \<and> snd t = w)))
      \<and> (3 \<le> n \<longrightarrow>
            (\<exists>H. generate_forward_scattering n site draws = Inr H
               \<and> (?I, define_forward_scattering_term n (generate_spherical_momentum (draws 1))
                      (generate_spherical_momentum (draws 2))) \<in> set H))"
    by (rule exI [of _ ?g]) (intro conjI impI g all some)
  show ?thesis
    by (intro conjI allI impI general pipeline)
qed

theorem identity_terms_per_edge_witness:
  "(3::int) \<le> 3
   \<and> (\<exists>H. generate_forward_scattering 3 0 (\<lambda>k. if k = 1 then (3, 0, 4) else (0, 5, 0)) = Inr H
        \<and> (''III'', 1 / (sqrt 2 * 3)) \<in> set H)"
proof -
  let ?D = "\<lambda>k::nat. if k = 1 then (3, 0, 4) else (0, 5, 0) :: real \<times> real \<times> real"
  have h: "(3::int) \<le> 3" by simp
  from identity_terms_per_edge [of 3 0 ?D, THEN conjunct2]
  have "3 \<le> (3::int) \<longrightarrow>
            (\<exists>H. generate_forward_scattering 3 0 ?D = Inr H
               \<and> (replicate (nat 3) CHR ''I'',
                    define_forward_scattering_term 3 (generate_spherical_momentum (?D 1))
                      (generate_spherical_momentum (?D 2))) \<in> set H)"
    by (elim exE conjE)
  with h show ?thesis
    by (simp add: define_forward_scattering_term_def numeral_3_eq_3)
qed

text \<open>
  C10. In real arithmetic, for a positive particle count: for unit-norm momenta the
  coupling weight lies in the closed interval from 0 to sqrt 2 / n_particles, so it is
  never negative; and when no draw has norm zero, every edge of the graph that the builder
  returns carries a weight in that interval.
\<close>

theorem coupling_weight_bounds:
  assumes "0 < n"
  shows "(norm3 p = 1 \<and> norm3 q = 1 \<longrightarrow>
            0 \<le> define_forward_scattering_term n p q
            \<and> define_forward_scattering_term n p q \<le> sqrt 2 / real_of_int n)
       \<and> ((\<forall>k. norm3 (draws k) \<noteq> 0) \<longrightarrow>
            (\<exists>g. generate_heisenberg_graph n site draws = Inr g
               \<and> (\<forall>(a, b, d)\<in>set (edges_data g).
                     \<exists>w. d = Some w \<and> 0 \<le> w \<and> w \<le> sqrt 2 / real_of_int n)))"
proof (rule conjI; rule impI)
  assume "norm3 p = 1 \<and> norm3 q = 1"
  then show "0 \<le> define_forward_scattering_term n p q
            \<and> define_forward_scattering_term n p q \<le> sqrt 2 / real_of_int n"
    using weight_bounds [OF assms, of p q] by simp
next
  assume nz: "\<forall>k. norm3 (draws k) \<noteq> 0"
  let ?g = "with_edges (nat n) site (all_edges n draws)"
  have e: "edges_data ?g = map (\<lambda>(i, j, w). (i, j, Some w)) (all_edges n draws)"
    unfolding all_edges_unfold by (rule edges_data_all)
  have u: "norm3 (sampled draws k) = 1" for k
    unfolding sampled_def using nz by (intro unit_norm_sample) simp
  have "\<forall>x\<in>set (edges_data ?g). case x of (a, b, d) \<Rightarrow>
          \<exists>w. d = Some w \<and> 0 \<le> w \<and> w \<le> sqrt 2 / real_of_int n"
  proof (rule ballI)
    fix x assume x: "x \<in> set (edges_data ?g)"
    obtain a b d where xe: "x = (a, b, d)" by (cases x)
    from x obtain w where d: "d = Some w" and m: "(a, b, w) \<in> set (all_edges n draws)"
      unfolding e xe by auto
    from m have w: "w = coupling n draws a b" unfolding mem_all_edges by auto
    have "0 \<le> w \<and> w \<le> sqrt 2 / real_of_int n"
      unfolding w coupling_def by (rule weight_bounds [OF assms u u])
    then show "case x of (a, b, d) \<Rightarrow> \<exists>w. d = Some w \<and> 0 \<le> w \<and> w \<le> sqrt 2 / real_of_int n"
      unfolding xe prod.case using d by blast
  qed
  then show "\<exists>g. generate_heisenberg_graph n site draws = Inr g
               \<and> (\<forall>(a, b, d)\<in>set (edges_data g).
                     \<exists>w. d = Some w \<and> 0 \<le> w \<and> w \<le> sqrt 2 / real_of_int n)"
    by (intro exI [of _ ?g] conjI generate_heisenberg_graph_closed)
qed

theorem coupling_weight_bounds_witness:
  "(0::int) < 2 \<and> norm3 (1, 0, 0) = 1 \<and> norm3 (0, 1, 0) = 1
   \<and> 0 \<le> define_forward_scattering_term 2 (1, 0, 0) (0, 1, 0)
   \<and> define_forward_scattering_term 2 (1, 0, 0) (0, 1, 0) \<le> sqrt 2 / real_of_int 2
   \<and> (\<forall>k::nat. norm3 (3, 0, 4) \<noteq> 0)
   \<and> (\<exists>g. generate_heisenberg_graph 2 0 (\<lambda>k. (3, 0, 4)) = Inr g
         \<and> (\<forall>(a, b, d)\<in>set (edges_data g).
               \<exists>w. d = Some w \<and> 0 \<le> w \<and> w \<le> sqrt 2 / real_of_int 2))"
proof -
  have h1: "(0::int) < 2" by simp
  have h2: "norm3 (1, 0, 0) = 1 \<and> norm3 (0, 1, 0) = 1" by simp
  have h3: "\<forall>k::nat. norm3 ((\<lambda>k. (3, 0, 4)) k) \<noteq> 0" by simp
  note t = coupling_weight_bounds [OF h1, of "(1, 0, 0)" "(0, 1, 0)" "\<lambda>k. (3, 0, 4)" 0]
  note a = t [THEN conjunct1, THEN mp, OF h2]
  note b = t [THEN conjunct2, THEN mp, OF h3]
  show ?thesis using h1 h2 h3 a b by (intro conjI) simp_all
qed

end
